theory Spec2Isabelle
  imports Main
begin

section \<open>Bytes and the library functions the parser calls\<close>

text \<open>
  A Go byte slice and a Go string are both modelled as \<open>string\<close> (a list of 8-bit
  \<open>char\<close>s). The functions of this section are the functions of Go's \<open>bytes\<close>,
  \<open>strings\<close> and \<open>strconv\<close> packages that the repository calls, on bytes.
  \<open>strings.ToLower\<close> is modelled on ASCII (a byte above 0x7F is left alone); the names
  it is applied to below are ASCII.
\<close>

definition CR :: char where "CR = CHR 0x0D"
definition LF :: char where "LF = CHR 0x0A"

fun HasPrefix :: "string \<Rightarrow> string \<Rightarrow> bool" where
  "HasPrefix s [] = True"
| "HasPrefix [] (p # ps) = False"
| "HasPrefix (c # cs) (p # ps) = (c = p \<and> HasPrefix cs ps)"

definition HasSuffix :: "string \<Rightarrow> string \<Rightarrow> bool" where
  "HasSuffix s suffix = HasPrefix (rev s) (rev suffix)"

lemma HasPrefix_length: "HasPrefix s p \<Longrightarrow> length p \<le> length s"
  by (induction s p rule: HasPrefix.induct) auto

text \<open>\<open>bytes.Index\<close>: the index of the first occurrence of \<open>sep\<close>, \<open>None\<close> for Go's -1.\<close>

fun Index :: "string \<Rightarrow> string \<Rightarrow> nat option" where
  "Index [] sep = (if sep = [] then Some 0 else None)"
| "Index (c # cs) sep =
     (if HasPrefix (c # cs) sep then Some 0 else map_option Suc (Index cs sep))"

text \<open>\<open>bytes.Cut\<close>: the text before and after the first \<open>sep\<close>, and whether it was found.\<close>

definition Cut :: "string \<Rightarrow> string \<Rightarrow> string \<times> string \<times> bool" where
  "Cut s sep =
     (case Index s sep of
        Some i \<Rightarrow> (take i s, drop (i + length sep) s, True)
      | None \<Rightarrow> (s, [], False))"

text \<open>\<open>bytes.Split\<close> on a one-byte separator: one more part than there are separators.\<close>

fun Split :: "string \<Rightarrow> char \<Rightarrow> string list" where
  "Split [] sep = [[]]"
| "Split (c # cs) sep =
     (if c = sep then [] # Split cs sep
      else (case Split cs sep of [] \<Rightarrow> [[c]] | p # ps \<Rightarrow> (c # p) # ps))"

text \<open>
  \<open>bytes.TrimSpace\<close> removes leading and trailing white space as \<open>unicode.IsSpace\<close>
  defines it, decoding the bytes as UTF-8. \<open>spaceRunes\<close> lists the UTF-8 encodings of
  the white-space code points: the six ASCII ones, U+0085, U+00A0, U+1680, U+2000 to
  U+200A, U+2028, U+2029, U+202F, U+205F and U+3000. No encoding is a prefix or a suffix
  of another one, and bytes that are not valid UTF-8 decode to the replacement rune, which
  is not white space: the leading (trailing) rune is white space exactly when one of the
  encodings is a prefix (suffix) of the bytes.
\<close>

definition spaceRunes :: "string list" where
  "spaceRunes =
     [[CHR 0x09], [CHR 0x0A], [CHR 0x0B], [CHR 0x0C], [CHR 0x0D], [CHR 0x20],
      [CHR 0xC2, CHR 0x85], [CHR 0xC2, CHR 0xA0], [CHR 0xE1, CHR 0x9A, CHR 0x80],
      [CHR 0xE2, CHR 0x80, CHR 0x80], [CHR 0xE2, CHR 0x80, CHR 0x81],
      [CHR 0xE2, CHR 0x80, CHR 0x82], [CHR 0xE2, CHR 0x80, CHR 0x83],
      [CHR 0xE2, CHR 0x80, CHR 0x84], [CHR 0xE2, CHR 0x80, CHR 0x85],
      [CHR 0xE2, CHR 0x80, CHR 0x86], [CHR 0xE2, CHR 0x80, CHR 0x87],
      [CHR 0xE2, CHR 0x80, CHR 0x88], [CHR 0xE2, CHR 0x80, CHR 0x89],
      [CHR 0xE2, CHR 0x80, CHR 0x8A], [CHR 0xE2, CHR 0x80, CHR 0xA8],
      [CHR 0xE2, CHR 0x80, CHR 0xA9], [CHR 0xE2, CHR 0x80, CHR 0xAF],
      [CHR 0xE2, CHR 0x81, CHR 0x9F], [CHR 0xE3, CHR 0x80, CHR 0x80]]"

text \<open>The width in bytes of the white-space rune the bytes start (end) with, 0 for none.\<close>

definition leadingSpace :: "string \<Rightarrow> nat" where
  "leadingSpace s = (case filter (HasPrefix s) spaceRunes of [] \<Rightarrow> 0 | q # qs \<Rightarrow> length q)"

definition trailingSpace :: "string \<Rightarrow> nat" where
  "trailingSpace s = (case filter (HasSuffix s) spaceRunes of [] \<Rightarrow> 0 | q # qs \<Rightarrow> length q)"

lemma leadingSpace_le: "leadingSpace s \<le> length s"
proof (cases "filter (HasPrefix s) spaceRunes")
  case Nil
  then show ?thesis by (simp add: leadingSpace_def)
next
  case (Cons q qs)
  then have "q \<in> set (filter (HasPrefix s) spaceRunes)" by simp
  then have "HasPrefix s q" by simp
  from HasPrefix_length [OF this] Cons show ?thesis by (simp add: leadingSpace_def)
qed

lemma trailingSpace_le: "trailingSpace s \<le> length s"
proof (cases "filter (HasSuffix s) spaceRunes")
  case Nil
  then show ?thesis by (simp add: trailingSpace_def)
next
  case (Cons q qs)
  then have "q \<in> set (filter (HasSuffix s) spaceRunes)" by simp
  then have "HasPrefix (rev s) (rev q)" by (simp add: HasSuffix_def)
  from HasPrefix_length [OF this] Cons show ?thesis by (simp add: trailingSpace_def)
qed

function TrimLeftSpace :: "string \<Rightarrow> string" where
  "TrimLeftSpace s = (if leadingSpace s = 0 then s else TrimLeftSpace (drop (leadingSpace s) s))"
  by pat_completeness auto
termination
proof (relation "measure length")
  show "wf (measure length)" by simp
next
  fix s :: string
  assume "leadingSpace s \<noteq> 0"
  with leadingSpace_le [of s] show "(drop (leadingSpace s) s, s) \<in> measure length" by simp
qed

function TrimRightSpace :: "string \<Rightarrow> string" where
  "TrimRightSpace s =
     (if trailingSpace s = 0 then s else TrimRightSpace (take (length s - trailingSpace s) s))"
  by pat_completeness auto
termination
proof (relation "measure length")
  show "wf (measure length)" by simp
next
  fix s :: string
  assume "trailingSpace s \<noteq> 0"
  with trailingSpace_le [of s] show "(take (length s - trailingSpace s) s, s) \<in> measure length"
    by simp
qed

declare TrimLeftSpace.simps [simp del] TrimRightSpace.simps [simp del]

definition TrimSpace :: "string \<Rightarrow> string" where
  "TrimSpace s = TrimRightSpace (TrimLeftSpace s)"

text \<open>The code point of a byte, as Go's rune comparisons see it.\<close>

definition ord :: "char \<Rightarrow> nat" where
  "ord c = of_char c"

definition toLowerChar :: "char \<Rightarrow> char" where
  "toLowerChar c =
     (if ord (CHR ''A'') \<le> ord c \<and> ord c \<le> ord (CHR ''Z'') then char_of (ord c + 32) else c)"

definition ToLower :: "string \<Rightarrow> string" where
  "ToLower s = map toLowerChar s"

section \<open>internal/headers/headers.go\<close>

text \<open>
  The struct \<open>Headers\<close> has the single field \<open>headers map[string]string\<close>; the
  model is that map. Go maps are shared by reference, so a method that writes the map
  returns the updated table.
\<close>

type_synonym Headers = "string \<rightharpoonup> string"

datatype error =
    MalformedHeaderName
  | MalformedFieldName
  | MalformedFieldLine
  | ERROR_MALFORMED_REQUESTLINE
  | ERROR_UNSUPPORTED_HTTP_VERSION
  | EOF

definition rn :: string where
  "rn = [CR, LF]"

definition NewHeaders :: Headers where
  "NewHeaders = Map.empty"

text \<open>Reading a missing key of a Go map gives the zero value, the empty string.\<close>

definition Get :: "Headers \<Rightarrow> string \<Rightarrow> string" where
  "Get h name = (case h (ToLower name) of None \<Rightarrow> [] | Some v \<Rightarrow> v)"

definition Set :: "Headers \<Rightarrow> string \<Rightarrow> string \<Rightarrow> Headers" where
  "Set h name value = h(ToLower name \<mapsto> value)"

text \<open>
  \<open>isToken\<close> ranges over the runes of the name. A rune decoded from bytes above 0x7F
  is itself above 0x7F (or is the replacement rune), so it fails every test below exactly
  as the byte does, and the loop is modelled over the bytes.
\<close>

definition isTokenChar :: "char \<Rightarrow> bool" where
  "isTokenChar ch =
     ((ord ch > ord (CHR ''A'') \<and> ord ch < ord (CHR ''Z'')
       \<or> ord ch > ord (CHR ''a'') \<and> ord ch < ord (CHR ''z'')
       \<or> ord ch > ord (CHR ''0'') \<and> ord ch < ord (CHR ''9''))
      \<or> ch \<in> set [CHR ''!'', CHR ''#'', CHR ''$'', CHR ''%'', CHR ''&'', CHR 0x27, CHR ''*'',
                     CHR ''+'', CHR ''-'', CHR ''.'', CHR ''^'', CHR ''_'', CHR 0x60, CHR ''|'',
                     CHR ''~''])"

fun isToken :: "string \<Rightarrow> bool" where
  "isToken [] = True"
| "isToken (ch # name) = (if \<not> isTokenChar ch then False else isToken name)"

definition parseHeader :: "string \<Rightarrow> error + string \<times> string" where
  "parseHeader fieldLine =
     (case Cut fieldLine '':'' of
        (name, val, found) \<Rightarrow>
          if found then
            (let val' = TrimSpace val in
             if \<not> isToken name then Inl MalformedHeaderName
             else if HasSuffix name '' '' then Inl MalformedFieldName
             else Inr (name, val'))
          else Inl MalformedFieldLine)"

lemma Index_bound: "Index s sep = Some i \<Longrightarrow> i + length sep \<le> length s"
proof (induction s arbitrary: i)
  case Nil
  then show ?case by (simp split: if_splits)
next
  case (Cons c cs)
  show ?case
  proof (cases "HasPrefix (c # cs) sep")
    case True
    with Cons.prems show ?thesis using HasPrefix_length [OF True] by simp
  next
    case False
    with Cons.prems obtain j where "Index cs sep = Some j" "i = Suc j" by auto
    with Cons.IH [of j] show ?thesis by simp
  qed
qed

text \<open>
  \<open>Headers.Parse\<close>: the loop over \<open>read\<close>. The result is the table as the call
  leaves it, followed by the three values the Go function returns.
\<close>

function Parse_loop :: "Headers \<Rightarrow> string \<Rightarrow> nat \<Rightarrow> Headers \<times> nat \<times> bool \<times> error option" where
  "Parse_loop h data read =
     (case Index (drop read data) rn of
        None \<Rightarrow> (h, read, False, None)
      | Some idx \<Rightarrow>
          if idx = 0 then (h, read + length rn, True, None)
          else (case parseHeader (take idx (drop read data)) of
                  Inl err \<Rightarrow> (h, 0, False, Some err)
                | Inr (name, value) \<Rightarrow>
                    Parse_loop (Set h name value) data (read + idx + length rn)))"
  by pat_completeness auto
termination
proof (relation "measure (\<lambda>(h, data, read). length data - read)")
  show "wf (measure (\<lambda>(h, data, read). length data - read))" by simp
next
  fix h :: Headers and data :: string and read idx :: nat and x nm val
  assume "Index (drop read data) rn = Some idx"
  then have "idx + length rn \<le> length data - read"
    using Index_bound by fastforce
  then show "((Set h nm val, data, read + idx + length rn), (h, data, read))
      \<in> measure (\<lambda>(h, data, read). length data - read)"
    by (simp add: rn_def)
qed

declare Parse_loop.simps [simp del]

definition Parse :: "Headers \<Rightarrow> string \<Rightarrow> Headers \<times> nat \<times> bool \<times> error option" where
  "Parse h data = Parse_loop h data 0"


subsection \<open>Feeding a header block in chunks\<close>

text \<open>
  The caller of \<open>Parse\<close> keeps the bytes a call did not consume and puts them in
  front of the next chunk. \<open>Parse_chunks\<close> feeds a list of chunks in this way,
  starting from the retained bytes \<open>buf\<close>, and adds up the bytes that the calls
  report as consumed; it stops at the first error and at the end of the header section,
  as \<open>Request.parse\<close> does.
\<close>

fun Parse_chunks ::
  "Headers \<Rightarrow> string \<Rightarrow> string list \<Rightarrow> nat \<Rightarrow> Headers \<times> nat \<times> bool \<times> error option" where
  "Parse_chunks h buf [] consumed = (h, consumed, False, None)"
| "Parse_chunks h buf (c # cs) consumed =
     (case Parse h (buf @ c) of
        (h', n, dn, err) \<Rightarrow>
          if err \<noteq> None then (h', consumed + n, False, err)
          else if dn then (h', consumed + n, True, None)
          else Parse_chunks h' (drop n (buf @ c)) cs (consumed + n))"

text \<open>A header block: field lines, each ended by CRLF, and a bare CRLF.\<close>

definition header_block :: "string list \<Rightarrow> string" where
  "header_block lines = concat (map (\<lambda>l. l @ rn) lines) @ rn"

text \<open>A result of \<open>Parse\<close> on a suffix of the buffer, counted from the buffer's start.\<close>

definition advance ::
  "nat \<Rightarrow> Headers \<times> nat \<times> bool \<times> error option \<Rightarrow> Headers \<times> nat \<times> bool \<times> error option" where
  "advance k res = (case res of (h, n, dn, err) \<Rightarrow> (h, if err = None then k + n else n, dn, err))"

section \<open>The request parser (package request)\<close>

datatype parserState = StateInit | StateHeaders | StateDone | StateBody

record RequestLine =
  HttpVersion :: string
  RequestTarget :: string
  Method :: string

record Request =
  RequestLine :: RequestLine
  state :: parserState
  headers :: Headers
  body :: string

text \<open>
  Modelled from the spec: the two-result \<open>Get\<close> that \<open>getInt\<close> calls
  (\<open>valStr, exists := headers.Get(name)\<close>). The file headers.go has the one-result
  \<open>Get\<close> only; the spec describes the lookup as case-insensitive, returning the value
  and an existence flag.
\<close>

definition Get2 :: "Headers \<Rightarrow> string \<Rightarrow> string \<times> bool" where
  "Get2 h name = (case h (ToLower name) of None \<Rightarrow> ([], False) | Some v \<Rightarrow> (v, True))"

text \<open>
  \<open>strconv.Atoi\<close>: an optional sign and one or more decimal digits, within the range
  of the 64-bit \<open>int\<close>; \<open>None\<close> stands for a returned error.
\<close>

definition isDigit :: "char \<Rightarrow> bool" where
  "isDigit c = (ord (CHR ''0'') \<le> ord c \<and> ord c \<le> ord (CHR ''9''))"

definition digitsValue :: "string \<Rightarrow> int" where
  "digitsValue ds = foldl (\<lambda>n ch. n * 10 + int (ord ch - ord (CHR ''0''))) 0 ds"

definition Atoi :: "string \<Rightarrow> int option" where
  "Atoi s =
     (let (neg, ds) =
        (case s of
           [] \<Rightarrow> (False, [])
         | c # rest \<Rightarrow>
             if c = CHR ''-'' then (True, rest)
             else if c = CHR ''+'' then (False, rest)
             else (False, s))
      in if ds = [] \<or> \<not> list_all isDigit ds then None
         else (let v = (if neg then - digitsValue ds else digitsValue ds)
               in if - (2 ^ 63) \<le> v \<and> v < 2 ^ 63 then Some v else None))"

definition getInt :: "Headers \<Rightarrow> string \<Rightarrow> int \<Rightarrow> int" where
  "getInt h name defaultValue =
     (case Get2 h name of
        (valStr, exists) \<Rightarrow>
          if \<not> exists then defaultValue
          else (case Atoi valStr of None \<Rightarrow> defaultValue | Some v \<Rightarrow> v))"

definition newRequest :: Request where
  "newRequest =
     \<lparr>RequestLine = \<lparr>HttpVersion = [], RequestTarget = [], Method = []\<rparr>,
      state = StateInit, headers = NewHeaders, body = []\<rparr>"

definition SEPARATOR :: string where
  "SEPARATOR = [CR, LF]"

text \<open>
  \<open>parseRequestLine\<close> returns the three Go results: the request line (\<open>None\<close> for
  nil), the bytes read and the error (\<open>None\<close> for nil).
\<close>

definition parseRequestLine :: "string \<Rightarrow> RequestLine option \<times> nat \<times> error option" where
  "parseRequestLine b =
     (case Index b SEPARATOR of
        None \<Rightarrow> (None, 0, None)
      | Some idx \<Rightarrow>
          (let startLine = take idx b;
               read = idx + length SEPARATOR;
               parts = Split startLine (CHR '' '')
           in if length parts \<noteq> 3 then (None, 0, Some ERROR_MALFORMED_REQUESTLINE)
              else (let httpParts = Split (parts ! 2) (CHR ''/'')
                    in if length httpParts \<noteq> 2 \<or> httpParts ! 0 \<noteq> ''HTTP''
                          \<or> httpParts ! 1 \<noteq> ''1.1''
                       then (None, 0, Some ERROR_MALFORMED_REQUESTLINE)
                       else (Some \<lparr>HttpVersion = httpParts ! 1, RequestTarget = parts ! 1,
                                   Method = parts ! 0\<rparr>, read, None))))"

text \<open>
  A call either returns its Go results or stops in a runtime panic. A call that does
  neither (it loops forever) is the value \<open>None\<close> of the functions below.
\<close>

datatype 'a exec = Panic | Return 'a

text \<open>Go's \<open>int\<close> is 64 bits wide here: subtraction wraps around.\<close>

definition wrap64 :: "int \<Rightarrow> int" where
  "wrap64 x = (x + 2 ^ 63) mod 2 ^ 64 - 2 ^ 63"

text \<open>
  \<open>Request.parse\<close>: one unfolding of \<open>parse_loop\<close> is one iteration of the
  \<open>for\<close> loop; \<open>break outer\<close> is the return of \<open>read\<close>. The request is the
  receiver as the call leaves it.
\<close>

partial_function (option) parse_loop ::
  "Request \<Rightarrow> string \<Rightarrow> nat \<Rightarrow> (Request \<times> (nat \<times> error option) exec) option" where
  "parse_loop r data read =
     (case state r of
        StateInit \<Rightarrow>
          (case parseRequestLine (drop read data) of
             (rl, n, err) \<Rightarrow>
               if err \<noteq> None then Some (r, Return (0, err))
               else if n = 0 then Some (r, Return (read, None))
               else (case rl of
                       None \<Rightarrow> Some (r, Panic)
                     | Some rl' \<Rightarrow>
                         parse_loop (r\<lparr>RequestLine := rl', state := StateHeaders\<rparr>) data (read + n)))
      | StateHeaders \<Rightarrow>
          (case Parse (headers r) (drop read data) of
             (h', n, done, err) \<Rightarrow>
               if err \<noteq> None then Some (r\<lparr>headers := h'\<rparr>, Return (0, err))
               else if n = 0 then Some (r\<lparr>headers := h'\<rparr>, Return (read, None))
               else if done then parse_loop (r\<lparr>headers := h', state := StateBody\<rparr>) data (read + n)
               else parse_loop (r\<lparr>headers := h'\<rparr>) data (read + n))
      | StateBody \<Rightarrow>
          (let len = getInt (headers r) ''content-length'' 0 in
           if len = 0 then parse_loop (r\<lparr>state := StateDone\<rparr>) data read
           else
             (let remaining = wrap64 (len - int (length (body r)));
                  toRead = min remaining (int (length (drop read data)))
              in if toRead < 0 then Some (r, Panic)
                 else
                   (let r' = r\<lparr>body := body r @ take (nat toRead) (drop read data)\<rparr>
                    in if int (length (body r')) = len
                       then parse_loop (r'\<lparr>state := StateDone\<rparr>) data (read + nat toRead)
                       else parse_loop r' data (read + nat toRead))))
      | StateDone \<Rightarrow> Some (r, Return (read, None)))"

declare parse_loop.simps [code]

definition parse :: "Request \<Rightarrow> string \<Rightarrow> (Request \<times> (nat \<times> error option) exec) option" where
  "parse r data = parse_loop r data 0"

definition done_r :: "Request \<Rightarrow> bool" where
  "done_r r = (state r = StateDone)"

text \<open>
  The byte source of \<open>RequestFromReader\<close> is an \<open>io.Reader\<close>. It is modelled by the
  results it still has to deliver, each a chunk of bytes and the error returned with it
  (\<open>None\<close> for nil). A \<open>Read\<close> into a slice of \<open>cap\<close> bytes that is shorter than
  the chunk takes \<open>cap\<close> bytes with a nil error and leaves the rest of the chunk, and
  its error, for the next \<open>Read\<close>; a source with nothing left returns 0 bytes and
  \<open>EOF\<close>.
\<close>

type_synonym Reader = "(string \<times> error option) list"

definition Read :: "Reader \<Rightarrow> nat \<Rightarrow> Reader \<times> string \<times> error option" where
  "Read reader cap =
     (case reader of
        [] \<Rightarrow> ([], [], Some EOF)
      | (c, e) # cs \<Rightarrow>
          if cap < length c then ((drop cap c, e) # cs, take cap c, None) else (cs, c, e))"

text \<open>
  \<open>RequestFromReader\<close>: \<open>buf\<close> is the filled region \<open>buf[:bufLen]\<close> of the
  1024-byte slice that the function allocates once, so \<open>buf[bufLen:]\<close> has
  \<open>1024 - length buf\<close> bytes.
\<close>

partial_function (option) RequestFromReader_loop ::
  "Request \<Rightarrow> string \<Rightarrow> Reader \<Rightarrow> ((error + Request) exec) option" where
  "RequestFromReader_loop request buf reader =
     (if \<not> done_r request then
        (case Read reader (1024 - length buf) of
           (reader', bs, err) \<Rightarrow>
             if err \<noteq> None then Some (Return (Inl (the err)))
             else
               (case parse request (buf @ bs) of
                  None \<Rightarrow> None
                | Some (request', Panic) \<Rightarrow> Some Panic
                | Some (request', Return (readN, err')) \<Rightarrow>
                    if err' \<noteq> None then Some (Return (Inl (the err')))
                    else RequestFromReader_loop request' (drop readN (buf @ bs)) reader'))
      else Some (Return (Inr request)))"

declare RequestFromReader_loop.simps [code]

definition RequestFromReader :: "Reader \<Rightarrow> ((error + Request) exec) option" where
  "RequestFromReader reader = RequestFromReader_loop newRequest [] reader"

subsection \<open>Sequences of calls\<close>

text \<open>
  The order of the parser states, Init, Headers, Body, Done, as a number.
\<close>

fun stateRank :: "parserState \<Rightarrow> nat" where
  "stateRank StateInit = 0"
| "stateRank StateHeaders = 1"
| "stateRank StateBody = 2"
| "stateRank StateDone = 3"

text \<open>
  A sequence of \<open>parse\<close> calls on one request, each call on a buffer of its own: the
  request and the results after every call. A panic ends the sequence; a call that does
  not return leaves no trace at all.
\<close>

fun parse_calls ::
  "Request \<Rightarrow> string list \<Rightarrow> (Request \<times> (nat \<times> error option) exec) list option" where
  "parse_calls r [] = Some []"
| "parse_calls r (data # rest) =
     (case parse r data of
        None \<Rightarrow> None
      | Some (r', Panic) \<Rightarrow> Some [(r', Panic)]
      | Some (r', Return res) \<Rightarrow> map_option ((#) (r', Return res)) (parse_calls r' rest))"

text \<open>
  A request in the Body state whose Content-Length is positive, with fewer bytes left in
  the buffer than the body still needs.
\<close>

definition body_starved :: "Request \<Rightarrow> string \<Rightarrow> nat \<Rightarrow> bool" where
  "body_starved r data read =
     (state r = StateBody \<and> 0 < getInt (headers r) ''content-length'' 0
      \<and> int (length (body r)) + int (length (drop read data))
          < getInt (headers r) ''content-length'' 0)"

subsection \<open>Valid messages, in the words of the spec\<close>

text \<open>
  The spec's field-name characters: any alphanumeric character or one of
  \<open>!#$%&'*+-.^_`|~\<close>.
\<close>

definition spec_token_char :: "char \<Rightarrow> bool" where
  "spec_token_char c =
     ((ord (CHR ''A'') \<le> ord c \<and> ord c \<le> ord (CHR ''Z''))
      \<or> (ord (CHR ''a'') \<le> ord c \<and> ord c \<le> ord (CHR ''z''))
      \<or> (ord (CHR ''0'') \<le> ord c \<and> ord c \<le> ord (CHR ''9''))
      \<or> c \<in> set [CHR ''!'', CHR ''#'', CHR ''$'', CHR ''%'', CHR ''&'', CHR 0x27, CHR ''*'',
                    CHR ''+'', CHR ''-'', CHR ''.'', CHR ''^'', CHR ''_'', CHR 0x60, CHR ''|'',
                    CHR ''~''])"

text \<open>The name and the value of a field line: the text before and after the first colon.\<close>

definition field_name :: "string \<Rightarrow> string" where
  "field_name f = fst (Cut f '':'')"

definition field_value :: "string \<Rightarrow> string" where
  "field_value f = fst (snd (Cut f '':''))"

text \<open>
  A field line of the spec: no CRLF inside, a colon, and before the first colon a
  non-empty name of token characters (so no space stands before the colon).
\<close>

definition spec_field_line :: "string \<Rightarrow> bool" where
  "spec_field_line f =
     (Index f rn = None \<and> snd (snd (Cut f '':'')) \<and> field_name f \<noteq> []
      \<and> list_all spec_token_char (field_name f))"



text \<open>The table after every field of the lines is set, in order, with its trimmed value.\<close>

definition set_fields :: "Headers \<Rightarrow> string list \<Rightarrow> Headers" where
  "set_fields h lines = foldl (\<lambda>h f. Set h (field_name f) (TrimSpace (field_value f))) h lines"






section \<open>Evaluation lemmas\<close>

lemmas bytes_defs = rn_def SEPARATOR_def CR_def LF_def

lemmas parser_defs = Parse_def Parse_loop.simps parseHeader_def Cut_def isTokenChar_def ord_def Set_def
  TrimSpace_def TrimLeftSpace.simps TrimRightSpace.simps leadingSpace_def trailingSpace_def
  spaceRunes_def NewHeaders_def HasSuffix_def

lemmas request_defs = parse_def parseRequestLine_def newRequest_def getInt_def Get2_def Atoi_def
  isDigit_def digitsValue_def wrap64_def

lemma ToLower_Content_Length: "ToLower ''Content-Length'' = ''content-length''"
  by code_simp

lemma ToLower_content_length: "ToLower ''content-length'' = ''content-length''"
  by code_simp

section \<open>The header table\<close>

text \<open>
  Claim C2: a second \<open>Set\<close> of a name that differs only in case appends its value to
  the first, joined by a comma, so that \<open>Set("Host","a")\<close>, \<open>Set("HOST","b")\<close> gives
  \<open>Get("host") = "a,b"\<close>. The \<open>Set\<close> of headers.go assigns the map entry: the second
  value replaces the first, and \<open>Get("host")\<close> is \<open>"b"\<close>.
\<close>

theorem Set_overwrites_at_repeated_name:
  "Get (Set (Set NewHeaders ''Host'' ''a'') ''HOST'' ''b'') ''host'' = ''b''"
  by code_simp

text \<open>
  Claim C10: \<open>Get\<close> is a case-insensitive lookup that returns the value and an existence
  flag, so that a name never set differs from a name set to the empty value. The
  \<open>Get\<close> of headers.go returns the value alone: for a name never set and for a name set
  to the empty string it returns the same empty string.
\<close>

theorem Get_absent_equals_present_empty:
  "Get NewHeaders ''x-flag'' = Get (Set NewHeaders ''X-Flag'' []) ''x-flag''"
  by code_simp

text \<open>
  Claim C7: \<open>Parse\<close> accepts a field line exactly when every character of its name is a
  token character, the alphanumeric boundary characters A, Z, a, z, 0, 9 included.
  \<open>isToken\<close> compares with strict inequalities, so each of the six boundary characters
  is rejected, and the field line \<open>Accept: x\<close> is a malformed header name.
\<close>

theorem isToken_rejects_boundary_characters:
  "\<not> isToken ''A'' \<and> \<not> isToken ''Z'' \<and> \<not> isToken ''a'' \<and> \<not> isToken ''z''
   \<and> \<not> isToken ''0'' \<and> \<not> isToken ''9''
   \<and> Parse NewHeaders (''Accept: x'' @ rn) = (NewHeaders, 0, False, Some MalformedHeaderName)"
  by (simp add: bytes_defs Parse_def Parse_loop.simps parseHeader_def Cut_def isTokenChar_def ord_def)

lemma HasPrefix_append: "length p \<le> length s \<Longrightarrow> HasPrefix (s @ t) p = HasPrefix s p"
  by (induction s p rule: HasPrefix.induct) auto

lemma HasPrefix_appendI: "HasPrefix s p \<Longrightarrow> HasPrefix (s @ t) p"
  using HasPrefix_append HasPrefix_length by blast

lemma HasPrefix_self_append: "HasPrefix (p @ t) p"
  by (induction p) auto

lemma Index_append:
  "Index a sep = Some i \<Longrightarrow> Index (a @ b) sep = Some i"
proof (induction a arbitrary: i)
  case Nil
  then show ?case by (cases b) (auto split: if_splits)
next
  case (Cons c cs)
  show ?case
  proof (cases "HasPrefix (c # cs) sep")
    case True
    with Cons.prems have "i = 0" by simp
    moreover from True have "HasPrefix ((c # cs) @ b) sep" by (rule HasPrefix_appendI)
    ultimately show ?thesis by simp
  next
    case False
    with Cons.prems obtain j where j: "Index cs sep = Some j" "i = Suc j" by auto
    from Index_bound [OF j(1)] have "length sep \<le> length (c # cs)" by simp
    with False have "\<not> HasPrefix ((c # cs) @ b) sep" by (metis HasPrefix_append)
    with Cons.IH [OF j(1)] j(2) show ?thesis by simp
  qed
qed

lemma Index_HasPrefix: "HasPrefix s sep \<Longrightarrow> Index s sep = Some 0"
  by (cases s; cases sep) auto

lemma Index_take:
  "Index s sep = Some i \<Longrightarrow> i + length sep \<le> m \<Longrightarrow> Index (take m s) sep = Some i"
proof (induction s arbitrary: i m)
  case Nil
  then show ?case by (auto split: if_splits)
next
  case (Cons c cs)
  from Cons.prems(2) Index_bound [OF Cons.prems(1)]
  have len: "length sep \<le> length (take m (c # cs))" by simp
  have pre: "HasPrefix (take m (c # cs)) sep = HasPrefix (c # cs) sep"
    using HasPrefix_append [OF len, of "drop m (c # cs)"] by simp
  show ?case
  proof (cases "HasPrefix (c # cs) sep")
    case True
    with Cons.prems(1) have "i = 0" by simp
    moreover from True pre have "Index (take m (c # cs)) sep = Some 0"
      by (intro Index_HasPrefix) simp
    ultimately show ?thesis by simp
  next
    case False
    with Cons.prems(1) obtain j where j: "Index cs sep = Some j" "i = Suc j" by auto
    with Cons.prems(2) obtain m' where m': "m = Suc m'" "j + length sep \<le> m'" by (cases m) auto
    from Cons.IH [OF j(1) m'(2)] False pre m'(1) j(2) show ?thesis by simp
  qed
qed

lemma Index_line:
  "Index l rn = None \<Longrightarrow> Index (l @ rn @ rest) rn = Some (length l)"
proof (induction l)
  case Nil
  then show ?case using HasPrefix_self_append [of rn rest] by (cases "rn @ rest") (auto simp: rn_def)
next
  case (Cons c cs)
  from Cons.prems have np: "\<not> HasPrefix (c # cs) rn" and none: "Index cs rn = None"
    by (auto split: if_splits)
  have "\<not> HasPrefix (c # cs @ rn @ rest) rn"
    using np by (cases cs) (auto simp: rn_def CR_def LF_def)
  with Cons.IH [OF none] show ?case by simp
qed


lemma length_rn [simp]: "length rn = 2"
  by (simp add: rn_def)

lemma Parse_loop_cases [case_names more blank bad line]:
  obtains
    (more) "Index (drop read data) rn = None" "Parse_loop h data read = (h, read, False, None)"
  | (blank) "Index (drop read data) rn = Some 0" "Parse_loop h data read = (h, read + 2, True, None)"
  | (bad) idx e where "Index (drop read data) rn = Some idx" "idx \<noteq> 0"
      "parseHeader (take idx (drop read data)) = Inl e"
      "Parse_loop h data read = (h, 0, False, Some e)"
  | (line) idx name val where "Index (drop read data) rn = Some idx" "idx \<noteq> 0"
      "parseHeader (take idx (drop read data)) = Inr (name, val)"
      "Parse_loop h data read = Parse_loop (Set h name val) data (read + idx + 2)"
proof -
  note eq = Parse_loop.simps [of h data read]
  show ?thesis
  proof (cases "Index (drop read data) rn")
    case None
    with eq more show ?thesis by simp
  next
    case (Some idx)
    show ?thesis
    proof (cases "idx = 0")
      case True
      with Some eq blank show ?thesis by simp
    next
      case False
      show ?thesis
      proof (cases "parseHeader (take idx (drop read data))")
        case (Inl e)
        with Some False eq bad [of idx e] show ?thesis by simp
      next
        case (Inr nv)
        obtain name val where "nv = (name, val)" by (cases nv)
        with Inr Some False eq line [of idx name val] show ?thesis by simp
      qed
    qed
  qed
qed

lemma Parse_loop_error:
  "Parse_loop h data read = (h', n, dn, Some e) \<Longrightarrow> n = 0 \<and> \<not> dn"
proof (induction h data read rule: Parse_loop.induct)
  case (1 h data read)
  show ?case
  proof (cases rule: Parse_loop_cases [where h = h and data = data and read = read])
    case (line idx name val)
    with "1.prems" "1.IH" [of idx "(name, val)" name val] show ?thesis by simp
  qed (use "1.prems" in auto)
qed

lemma Parse_loop_bounds:
  "Parse_loop h data read = (h', n, dn, None) \<Longrightarrow> read \<le> length data
   \<Longrightarrow> read \<le> n \<and> n \<le> length data \<and> (\<not> dn \<longrightarrow> Index (drop n data) rn = None)"
proof (induction h data read rule: Parse_loop.induct)
  case (1 h data read)
  show ?case
  proof (cases rule: Parse_loop_cases [where h = h and data = data and read = read])
    case more
    with "1.prems" show ?thesis by auto
  next
    case blank
    with "1.prems" Index_bound [OF blank(1)] show ?thesis by auto
  next
    case (bad idx e)
    with "1.prems" show ?thesis by simp
  next
    case (line idx name val)
    from Index_bound [OF line(1)] have le: "read + idx + 2 \<le> length data" by simp
    from "1.IH" [of idx "(name, val)" name val] line "1.prems" le
    show ?thesis by simp
  qed
qed

lemma Parse_loop_shift:
  "Parse_loop h data (k + read) = advance k (Parse_loop h (drop k data) read)"
proof (induction h "drop k data" read rule: Parse_loop.induct)
  case (1 h read)
  have d: "drop (k + read) data = drop read (drop k data)" by (simp add: add.commute)
  show ?case
  proof (cases rule: Parse_loop_cases [where h = h and data = "drop k data" and read = read])
    case more
    then show ?thesis
      using Parse_loop.simps [of h data "k + read"] by (simp add: d advance_def)
  next
    case blank
    then show ?thesis
      using Parse_loop.simps [of h data "k + read"] by (simp add: d advance_def)
  next
    case (bad idx e)
    then show ?thesis
      using Parse_loop.simps [of h data "k + read"] by (simp add: d advance_def)
  next
    case (line idx name val)
    from "1.hyps" [of idx "(name, val)" name val] line
    have "Parse_loop (Set h name val) data (k + (read + idx + 2))
            = advance k (Parse_loop (Set h name val) (drop k data) (read + idx + 2))" by simp
    with line show ?thesis
      using Parse_loop.simps [of h data "k + read"] by (simp add: d add.assoc)
  qed
qed

lemma Parse_loop_append:
  "read \<le> length a \<Longrightarrow>
   Parse_loop h (a @ b) read =
     (case Parse_loop h a read of
        (h', n, dn, err) \<Rightarrow> if dn \<or> err \<noteq> None then (h', n, dn, err) else Parse_loop h' (a @ b) n)"
proof (induction h a read rule: Parse_loop.induct)
  case (1 h a read)
  show ?case
  proof (cases rule: Parse_loop_cases [where h = h and data = a and read = read])
    case more
    then show ?thesis by simp
  next
    case blank
    from Index_append [OF blank(1), of b] "1.prems"
    have "Index (drop read (a @ b)) rn = Some 0" by simp
    with blank show ?thesis
      using Parse_loop.simps [of h "a @ b" read] by simp
  next
    case (bad idx e)
    from Index_bound [OF bad(1)] "1.prems"
    have le: "read + idx + 2 \<le> length a" by simp
    then have d: "drop read (a @ b) = drop read a @ b"
      and t: "take idx (drop read a @ b) = take idx (drop read a)" by simp_all
    note i = Index_append [OF bad(1), of b]
    have "Parse_loop h (a @ b) read = (h, 0, False, Some e)"
      unfolding Parse_loop.simps [of h "a @ b" read] d i using bad le by simp
    with bad show ?thesis by simp
  next
    case (line idx name val)
    from Index_bound [OF line(1)] "1.prems"
    have le: "read + idx + 2 \<le> length a" by simp
    then have d: "drop read (a @ b) = drop read a @ b"
      and t: "take idx (drop read a @ b) = take idx (drop read a)" by simp_all
    note i = Index_append [OF line(1), of b]
    have "Parse_loop h (a @ b) read = Parse_loop (Set h name val) (a @ b) (read + idx + 2)"
      unfolding Parse_loop.simps [of h "a @ b" read] d i using line le by simp
    also have "\<dots> = (case Parse_loop (Set h name val) a (read + idx + 2) of
        (h', n, dn, err) \<Rightarrow> if dn \<or> err \<noteq> None then (h', n, dn, err) else Parse_loop h' (a @ b) n)"
      using "1.IH" [of idx "(name, val)" name val] line le by simp
    finally show ?thesis using line by simp
  qed
qed


lemma ToLower_Host: "ToLower ''Host'' = ''host''"
  by code_simp

lemma advance_advance: "advance j (advance k res) = advance (j + k) res"
  by (cases res) (simp add: advance_def)

lemma Parse_chunks_eq:
  "Index buf rn = None \<Longrightarrow> snd (snd (snd (Parse h (buf @ concat cs)))) = None \<Longrightarrow>
   Parse_chunks h buf cs consumed = advance consumed (Parse h (buf @ concat cs))"
proof (induction cs arbitrary: h buf consumed)
  case Nil
  then show ?case by (simp add: Parse_def Parse_loop.simps [of h buf 0] advance_def)
next
  case (Cons c cs)
  obtain h' n dn err where res: "Parse_loop h (buf @ c) 0 = (h', n, dn, err)"
    by (cases "Parse_loop h (buf @ c) 0") auto
  have whole: "Parse h (buf @ concat (c # cs)) =
      (if dn \<or> err \<noteq> None then (h', n, dn, err) else Parse_loop h' ((buf @ c) @ concat cs) n)"
    using Parse_loop_append [of 0 "buf @ c" h "concat cs"] res by (simp add: Parse_def)
  have err: "err = None"
    using whole Cons.prems(2) by (auto split: if_splits)
  show ?case
  proof (cases dn)
    case True
    with err res whole show ?thesis by (simp add: Parse_def advance_def)
  next
    case False
    from Parse_loop_bounds [of h "buf @ c" 0 h' n dn] res err False
    have n: "n \<le> length (buf @ c)" and left: "Index (drop n (buf @ c)) rn = None" by simp_all
    have "Parse_loop h' ((buf @ c) @ concat cs) (n + 0)
            = advance n (Parse_loop h' (drop n ((buf @ c) @ concat cs)) 0)"
      by (rule Parse_loop_shift)
    moreover from n have "drop n ((buf @ c) @ concat cs) = drop n (buf @ c) @ concat cs" by simp
    ultimately have w: "Parse h (buf @ concat (c # cs)) = advance n (Parse h' (drop n (buf @ c) @ concat cs))"
      using whole err False by (simp add: Parse_def)
    with Cons.prems(2) have noerr: "snd (snd (snd (Parse h' (drop n (buf @ c) @ concat cs)))) = None"
      by (cases "Parse h' (drop n (buf @ c) @ concat cs)") (simp add: advance_def)
    have "Parse_chunks h buf (c # cs) consumed = Parse_chunks h' (drop n (buf @ c)) cs (consumed + n)"
      using res err False by (simp add: Parse_def)
    with w show ?thesis
      using Cons.IH [OF left noerr, of "consumed + n"] by (simp add: advance_advance)
  qed
qed

text \<open>
  Claim C1: for every valid header block, one call of \<open>Parse\<close> on the whole block and
  the same bytes fed in chunks give the same table and the same total of bytes consumed.
  Wherever the one call reports no error the two agree (\<open>Parse_chunks_eq\<close>). On the
  valid block of the lines \<open>Host: x\<close> and \<open>Accept: y\<close> they do not: \<open>isToken\<close>
  rejects the \<open>A\<close> of \<open>Accept\<close>, the one call returns the error with 0 bytes, and
  the two chunks, one line each, add up to 9 bytes before the same error.
\<close>

theorem Parse_chunks_differ_on_valid_block:
  "spec_field_line ''Host: x'' \<and> spec_field_line ''Accept: y''
   \<and> Parse NewHeaders (header_block [''Host: x'', ''Accept: y''])
       = (NewHeaders(''host'' \<mapsto> ''x''), 0, False, Some MalformedHeaderName)
   \<and> Parse_chunks NewHeaders [] [''Host: x'' @ rn, ''Accept: y'' @ rn @ rn] 0
       = (NewHeaders(''host'' \<mapsto> ''x''), 9, False, Some MalformedHeaderName)"
  by (simp add: spec_field_line_def spec_token_char_def field_name_def header_block_def
      parser_defs bytes_defs ToLower_Host)

lemma Parse_loop_error_prefix:
  "Parse_loop h data read = (h', n, dn, Some e) \<Longrightarrow> read \<le> length data \<Longrightarrow>
   \<exists>k idx. read \<le> k \<and> k \<le> length data \<and> Parse_loop h (take k data) read = (h', k, False, None)
     \<and> Index (drop k data) rn = Some idx \<and> idx \<noteq> 0 \<and> parseHeader (take idx (drop k data)) = Inl e"
proof (induction h data read rule: Parse_loop.induct)
  case (1 h data read)
  show ?case
  proof (cases rule: Parse_loop_cases [where h = h and data = data and read = read])
    case more
    with "1.prems" show ?thesis by simp
  next
    case blank
    with "1.prems" show ?thesis by simp
  next
    case (bad idx e')
    have "Parse_loop h (take read data) read = (h, read, False, None)"
      by (subst Parse_loop.simps) (simp add: rn_def)
    with bad "1.prems" show ?thesis by auto
  next
    case (line idx name val)
    from Index_bound [OF line(1)] have le: "read + idx + 2 \<le> length data" by simp
    from "1.IH" [of idx "(name, val)" name val] line "1.prems" le
    obtain k idx' where k: "read + idx + 2 \<le> k" "k \<le> length data"
      "Parse_loop (Set h name val) (take k data) (read + idx + 2) = (h', k, False, None)"
      "Index (drop k data) rn = Some idx'" "idx' \<noteq> 0" "parseHeader (take idx' (drop k data)) = Inl e"
      by auto
    have d: "drop read (take k data) = take (k - read) (drop read data)"
      by (simp add: drop_take)
    from k(1) have m: "idx + length rn \<le> k - read" by simp
    note i = Index_take [OF line(1) m]
    have t: "take idx (take (k - read) (drop read data)) = take idx (drop read data)"
      using m by (simp add: min_def)
    have "Parse_loop h (take k data) read = Parse_loop (Set h name val) (take k data) (read + idx + 2)"
      unfolding Parse_loop.simps [of h "take k data" read] d i using line t by simp
    with k show ?thesis by (intro exI [of _ k] exI [of _ idx']) simp
  qed
qed

lemma Parse_error_first_line:
  "Index data rn = Some idx \<Longrightarrow> idx \<noteq> 0 \<Longrightarrow> parseHeader (take idx data) = Inl e
   \<Longrightarrow> Parse h data = (h, 0, False, Some e)"
  by (simp add: Parse_def Parse_loop.simps [of h data 0])

text \<open>
  Claim C8, as amended: when \<open>Parse\<close> hits a validation error it returns the error with
  0 bytes consumed and \<open>headersComplete = false\<close>. What was committed is not rolled
  back: the field lines that precede the malformed line in the buffer have been set in the
  table by then, which is left as a \<open>Parse\<close> of those \<open>k\<close> preceding bytes alone
  leaves it. When the malformed line is the first line of the buffer, the table is as it
  was before the call.
\<close>

theorem Parse_error_consumes_nothing:
  assumes "Parse h data = (h', n, dn, Some e)"
  shows "n = 0 \<and> \<not> dn
    \<and> (\<exists>k idx. k \<le> length data \<and> Parse h (take k data) = (h', k, False, None)
          \<and> Index (drop k data) rn = Some idx \<and> idx \<noteq> 0
          \<and> parseHeader (take idx (drop k data)) = Inl e)
    \<and> (\<forall>idx e'. Index data rn = Some idx \<and> idx \<noteq> 0 \<and> parseHeader (take idx data) = Inl e'
          \<longrightarrow> h' = h)"
proof -
  have "\<forall>idx e'. Index data rn = Some idx \<and> idx \<noteq> 0 \<and> parseHeader (take idx data) = Inl e'
          \<longrightarrow> h' = h"
    using assms Parse_error_first_line [of data _ _ h] by fastforce
  then show ?thesis
    using assms Parse_loop_error [of h data 0 h' n dn e]
      Parse_loop_error_prefix [of h data 0 h' n dn e]
    unfolding Parse_def by simp
qed

theorem Parse_error_consumes_nothing_witness:
  "Parse NewHeaders (''Host: x'' @ rn @ ''N@me: y'' @ rn)
     = (NewHeaders(''host'' \<mapsto> ''x''), 0, False, Some MalformedHeaderName)
   \<and> (\<exists>k idx. k \<le> length (''Host: x'' @ rn @ ''N@me: y'' @ rn)
        \<and> Parse NewHeaders (take k (''Host: x'' @ rn @ ''N@me: y'' @ rn))
              = (NewHeaders(''host'' \<mapsto> ''x''), k, False, None)
        \<and> Index (drop k (''Host: x'' @ rn @ ''N@me: y'' @ rn)) rn = Some idx \<and> idx \<noteq> 0
        \<and> parseHeader (take idx (drop k (''Host: x'' @ rn @ ''N@me: y'' @ rn))) = Inl MalformedHeaderName)
   \<and> Parse (NewHeaders(''a'' \<mapsto> ''b'')) (''N@me: y'' @ rn)
     = (NewHeaders(''a'' \<mapsto> ''b''), 0, False, Some MalformedHeaderName)"
proof -
  have run: "Parse NewHeaders (''Host: x'' @ rn @ ''N@me: y'' @ rn)
     = (NewHeaders(''host'' \<mapsto> ''x''), 0, False, Some MalformedHeaderName)"
    by (simp add: parser_defs bytes_defs ToLower_Host)
  have second: "Parse (NewHeaders(''a'' \<mapsto> ''b'')) (''N@me: y'' @ rn)
     = (NewHeaders(''a'' \<mapsto> ''b''), 0, False, Some MalformedHeaderName)"
    by (simp add: parser_defs bytes_defs)
  note unchanged = Parse_error_consumes_nothing [OF second]
  from Parse_error_consumes_nothing [OF run] unchanged run second show ?thesis by simp
qed

text \<open>
  Claim C8 as stated fails: on a valid field line followed by a malformed one the table is
  not as it was before the call.
\<close>

theorem Parse_error_keeps_earlier_lines_counterexample:
  "fst (Parse NewHeaders (''Host: x'' @ rn @ ''N@me: y'' @ rn)) \<noteq> NewHeaders"
proof -
  have "fst (Parse NewHeaders (''Host: x'' @ rn @ ''N@me: y'' @ rn)) ''host'' = Some ''x''"
    by (simp add: Parse_loop.simps parser_defs bytes_defs ToLower_Host)
  moreover have "NewHeaders ''host'' = None" by (simp add: NewHeaders_def)
  ultimately show ?thesis by force
qed

section \<open>The request line\<close>

text \<open>
  Claim C6: on a line of three tokens whose third token is not \<open>HTTP/1.1\<close>,
  \<open>parseRequestLine\<close> returns an unsupported-version error, distinct from the
  malformed-request-line error. \<open>parseRequestLine\<close> returns
  \<open>ERROR_MALFORMED_REQUESTLINE\<close> there as well; \<open>ERROR_UNSUPPORTED_HTTP_VERSION\<close>
  is declared and never returned.
\<close>

theorem parseRequestLine_version_error_is_malformed:
  "parseRequestLine (''GET /x HTTP/1.0'' @ SEPARATOR) = (None, 0, Some ERROR_MALFORMED_REQUESTLINE)
   \<and> ERROR_MALFORMED_REQUESTLINE \<noteq> ERROR_UNSUPPORTED_HTTP_VERSION"
  by (simp add: bytes_defs parseRequestLine_def)

theorem parseRequestLine_version_error_witness:
  "snd (snd (parseRequestLine (''GET /x HTTP/1.0'' @ SEPARATOR))) \<noteq> Some ERROR_UNSUPPORTED_HTTP_VERSION"
  using parseRequestLine_version_error_is_malformed by simp

section \<open>The request parser\<close>

lemma Atoi_range: "Atoi s = Some v \<Longrightarrow> - (2 ^ 63) \<le> v \<and> v < 2 ^ 63"
  by (auto simp: Atoi_def Let_def split: list.splits if_splits prod.splits)

lemma getInt_range: "- (2 ^ 63) \<le> getInt h name 0 \<and> getInt h name 0 < 2 ^ 63"
  using Atoi_range by (auto simp: getInt_def split: prod.splits option.splits)

lemma wrap64_id: "- (2 ^ 63) \<le> x \<Longrightarrow> x < 2 ^ 63 \<Longrightarrow> wrap64 x = x"
  by (simp add: wrap64_def)

text \<open>
  Claim C4: \<open>Request.parse\<close> is not total. When the Content-Length value parses to a
  negative integer, the Body step computes a negative \<open>toRead\<close> and slices
  \<open>currentData[:toRead]\<close>, a runtime panic, whatever the buffer holds: no error is
  returned and the negative value is not treated as "no body". A request reaches the
  Body state with an empty body, as assumed here.
\<close>

theorem parse_negative_content_length_panics:
  assumes "state r = StateBody" and "body r = []"
    and "getInt (headers r) ''content-length'' 0 < 0"
  shows "parse_loop r data read = Some (r, Panic)"
proof -
  let ?len = "getInt (headers r) ''content-length'' 0"
  have w: "wrap64 (?len - int (length (body r))) = ?len"
    using assms(2) getInt_range [of "headers r" "''content-length''"] by (simp add: wrap64_id)
  show ?thesis
    using assms(1,3) by (subst parse_loop.simps) (simp add: Let_def w)
qed

theorem parse_negative_content_length_witness:
  "parse newRequest (''POST /a HTTP/1.1'' @ rn @ ''Content-Length: -1'' @ rn @ rn @ ''hello'')
   = Some (\<lparr>RequestLine = \<lparr>HttpVersion = ''1.1'', RequestTarget = ''/a'', Method = ''POST''\<rparr>,
             state = StateBody, headers = NewHeaders(''content-length'' \<mapsto> ''-1''), body = []\<rparr>, Panic)"
proof -
  let ?r = "\<lparr>RequestLine = \<lparr>HttpVersion = ''1.1'', RequestTarget = ''/a'', Method = ''POST''\<rparr>,
             state = StateBody, headers = NewHeaders(''content-length'' \<mapsto> ''-1''), body = []\<rparr>"
  let ?data = "''POST /a HTTP/1.1'' @ rn @ ''Content-Length: -1'' @ rn @ rn @ ''hello''"
  have neg: "getInt (headers ?r) ''content-length'' 0 < 0"
    by (simp add: request_defs parser_defs ToLower_content_length)
  have "\<exists>n. parse newRequest ?data = parse_loop ?r ?data n"
    unfolding parse_def
    apply (subst parse_loop.simps)
    apply (simp add: request_defs parser_defs bytes_defs)
    apply (subst parse_loop.simps)
    apply (simp add: request_defs parser_defs bytes_defs ToLower_Content_Length)
    apply blast
    done
  then obtain n where "parse newRequest ?data = parse_loop ?r ?data n" ..
  then show ?thesis
    using parse_negative_content_length_panics [of ?r ?data n] neg by simp
qed

lemma parse_loop_state_forward:
  "parse_loop r data read = Some y \<Longrightarrow> stateRank (state r) \<le> stateRank (state (fst y))"
proof (erule parse_loop.raw_induct [rotated 1], goal_cases)
  case (1 parse_loop r data read y)
  note IH = 1(1) and run = 1(2)
  show ?case
  proof (cases "state r")
    case StateInit
    with run show ?thesis
      by (auto split: prod.splits if_splits option.splits dest!: IH)
  next
    case StateHeaders
    with run show ?thesis
      by (auto split: prod.splits if_splits option.splits dest!: IH)
  next
    case StateDone
    with run show ?thesis by auto
  next
    case StateBody
    with run show ?thesis
      by (auto simp: Let_def split: prod.splits if_splits option.splits dest!: IH)
  qed
qed

lemma parse_Done: "state r = StateDone \<Longrightarrow> parse r data = Some (r, Return (0, None))"
  by (simp add: parse_def parse_loop.simps)

lemma parse_calls_forward:
  "parse_calls r ds = Some tr \<Longrightarrow> sorted (map stateRank (state r # map (state \<circ> fst) tr))"
proof (induction ds arbitrary: r tr)
  case Nil
  then show ?case by simp
next
  case (Cons d ds)
  then obtain r' out where p: "parse r d = Some (r', out)"
    by (auto split: option.splits)
  have le: "stateRank (state r) \<le> stateRank (state r')"
    using parse_loop_state_forward [of r d 0 "(r', out)"] p by (simp add: parse_def)
  show ?case
  proof (cases out)
    case Panic
    with Cons.prems p le show ?thesis by auto
  next
    case (Return res)
    with Cons.prems p obtain tr' where tr': "parse_calls r' ds = Some tr'" "tr = (r', Return res) # tr'"
      by auto
    from Cons.IH [OF tr'(1)] have "sorted (map stateRank (state r' # map (state \<circ> fst) tr'))" .
    with le tr'(2) show ?thesis by (auto simp: comp_def)
  qed
qed

lemma parse_calls_Done:
  "state r = StateDone \<Longrightarrow> parse_calls r ds = Some (map (\<lambda>d. (r, Return (0, None))) ds)"
  by (induction ds) (simp_all add: parse_Done)


lemma parse_calls_after_Done:
  "parse_calls r ds = Some tr \<Longrightarrow> i < j \<Longrightarrow> j < length tr \<Longrightarrow> state (fst (tr ! i)) = StateDone
   \<Longrightarrow> tr ! j = (fst (tr ! i), Return (0, None))"
proof (induction ds arbitrary: r tr i j)
  case Nil
  then show ?case by simp
next
  case (Cons d ds)
  from Cons.prems(1) obtain r' out where p: "parse r d = Some (r', out)"
    by (auto split: option.splits)
  show ?case
  proof (cases out)
    case Panic
    with Cons.prems p show ?thesis by auto
  next
    case (Return res)
    with Cons.prems(1) p obtain tr' where tr': "parse_calls r' ds = Some tr'" "tr = (r', Return res) # tr'"
      by auto
    show ?thesis
    proof (cases i)
      case 0
      with Cons.prems(4) tr'(2) have "state r' = StateDone" by simp
      with tr'(1) have "tr' = map (\<lambda>d. (r', Return (0, None))) ds"
        by (simp add: parse_calls_Done)
      with Cons.prems(2,3) tr'(2) 0 show ?thesis by (cases j) auto
    next
      case (Suc i')
      with Cons.prems(2) obtain j' where j': "j = Suc j'" "i' < j'" by (cases j) auto
      from Cons.IH [OF tr'(1) j'(2), of] Cons.prems(3,4) tr'(2) Suc j'(1)
      show ?thesis by simp
    qed
  qed
qed

text \<open>
  Claim C9: over every sequence of \<open>parse\<close> calls on a request the state only moves
  forward along Init, Headers, Body, Done; and Done is terminal: once the state is Done,
  every further call returns, consumes 0 bytes and leaves the request unchanged.
\<close>

theorem parse_state_only_moves_forward:
  "(parse_calls r ds = Some tr \<longrightarrow>
      sorted (map stateRank (state r # map (state \<circ> fst) tr))
      \<and> (\<forall>i j. i < j \<and> j < length tr \<and> state (fst (tr ! i)) = StateDone
             \<longrightarrow> tr ! j = (fst (tr ! i), Return (0, None))))
   \<and> (state r = StateDone \<longrightarrow> parse r data = Some (r, Return (0, None)))"
  using parse_calls_forward [of r ds tr] parse_calls_after_Done [of r ds tr] parse_Done [of r data]
  by blast

theorem parse_state_only_moves_forward_witness:
  "map (state \<circ> fst) (the (parse_calls newRequest [''GET / HTTP/1.1'' @ rn, rn, ''more'']))
     = [StateHeaders, StateDone, StateDone]
   \<and> map snd (the (parse_calls newRequest [''GET / HTTP/1.1'' @ rn, rn, ''more'']))
     = [Return (16, None), Return (2, None), Return (0, None)]
   \<and> sorted (map stateRank (state newRequest #
        map (state \<circ> fst) (the (parse_calls newRequest [''GET / HTTP/1.1'' @ rn, rn, ''more'']))))"
proof -
  let ?ds = "[''GET / HTTP/1.1'' @ rn, rn, ''more'']"
  let ?rl = "\<lparr>HttpVersion = ''1.1'', RequestTarget = ''/'', Method = ''GET''\<rparr>"
  let ?r1 = "\<lparr>RequestLine = ?rl, state = StateHeaders, headers = NewHeaders, body = []\<rparr>"
  let ?r2 = "\<lparr>RequestLine = ?rl, state = StateDone, headers = NewHeaders, body = []\<rparr>"
  let ?tr = "[(?r1, Return (16, None)), (?r2, Return (2, None)), (?r2, Return (0, None))]"
  have run: "parse_calls newRequest ?ds = Some ?tr"
    by (simp add: parse_loop.simps request_defs parser_defs bytes_defs ToLower_content_length)
  note fwd = parse_state_only_moves_forward [of newRequest ?ds ?tr, THEN conjunct1, THEN mp, OF run,
      THEN conjunct1]
  show ?thesis
    unfolding run using fwd by simp
qed

lemma parse_loop_body_starved_aux:
  "parse_loop r data read = Some y \<Longrightarrow> \<not> body_starved r data read"
proof (erule parse_loop.raw_induct [rotated 1], goal_cases)
  case (1 parse_loop r data read y)
  note IH = 1(1) and run = 1(2)
  show ?case
  proof
    assume st: "body_starved r data read"
    let ?len = "getInt (headers r) ''content-length'' 0"
    let ?rest = "drop read data"
    from st have B: "state r = StateBody" and pos: "0 < ?len"
      and short: "int (length (body r)) + int (length ?rest) < ?len"
      by (simp_all add: body_starved_def)
    have w: "wrap64 (?len - int (length (body r))) = ?len - int (length (body r))"
      using getInt_range [of "headers r" "''content-length''"] short by (intro wrap64_id) auto
    have m: "min (?len - int (length (body r))) (int (length ?rest)) = int (length ?rest)"
      using short by simp
    let ?r' = "r\<lparr>body := body r @ ?rest\<rparr>"
    have "parse_loop ?r' data (read + length ?rest) = Some y"
      using run B pos short by (simp add: Let_def w m)
    from IH [OF this] have "\<not> body_starved ?r' data (read + length ?rest)" .
    moreover have "body_starved ?r' data (read + length ?rest)"
      using B pos short by (simp add: body_starved_def)
    ultimately show False by contradiction
  qed
qed

lemma parse_loop_body_starved: "body_starved r data read \<Longrightarrow> parse_loop r data read = None"
  using parse_loop_body_starved_aux [of r data read] by (cases "parse_loop r data read") auto


lemma parse_loop_Init:
  "state r = StateInit \<Longrightarrow> parse_loop r data read =
     (case parseRequestLine (drop read data) of
        (rl, n, err) \<Rightarrow>
          if err \<noteq> None then Some (r, Return (0, err))
          else if n = 0 then Some (r, Return (read, None))
          else (case rl of
                  None \<Rightarrow> Some (r, Panic)
                | Some rl' \<Rightarrow>
                    parse_loop (r\<lparr>RequestLine := rl', state := StateHeaders\<rparr>) data (read + n)))"
  by (subst parse_loop.simps) simp

lemma parse_loop_Headers:
  "state r = StateHeaders \<Longrightarrow> parse_loop r data read =
     (case Parse (headers r) (drop read data) of
        (h', n, done, err) \<Rightarrow>
          if err \<noteq> None then Some (r\<lparr>headers := h'\<rparr>, Return (0, err))
          else if n = 0 then Some (r\<lparr>headers := h'\<rparr>, Return (read, None))
          else if done then parse_loop (r\<lparr>headers := h', state := StateBody\<rparr>) data (read + n)
          else parse_loop (r\<lparr>headers := h'\<rparr>) data (read + n))"
  by (subst parse_loop.simps) simp

lemma parse_loop_Done:
  "state r = StateDone \<Longrightarrow> parse_loop r data read = Some (r, Return (read, None))"
  by (subst parse_loop.simps) simp

lemmas starved_eval = parse_loop_Init parse_loop_Headers parse_loop_Done parse_loop_body_starved
  body_starved_def request_defs parser_defs bytes_defs ToLower_Content_Length ToLower_content_length
  Read_def done_r_def

text \<open>
  Claim C3: in the Body state each call consumes \<open>min(target - accumulated, available)\<close>
  bytes and moves to Done when the body is complete, so that feeding
  \<open>POST /a HTTP/1.1\r\nContent-Length: 5\r\n\r\nhello\<close> one byte at a time ends in Done
  with body \<open>hello\<close>. The Body case has no \<open>break outer\<close>: with a positive target and
  fewer bytes in the buffer than the body still needs, the loop of \<open>parse\<close> consumes
  what there is and then iterates forever on an empty remainder
  (\<open>parse_loop_body_starved\<close>). Fed one byte at a time, the call that receives the
  last byte of the header section never returns, and neither does \<open>RequestFromReader\<close>.
\<close>

theorem RequestFromReader_byte_at_a_time_never_returns:
  "RequestFromReader (map (\<lambda>c. ([c], None))
     (''POST /a HTTP/1.1'' @ rn @ ''Content-Length: 5'' @ rn @ rn @ ''hello'')) = None"
  unfolding RequestFromReader_def
  apply (simp add: bytes_defs)
  apply (subst RequestFromReader_loop.simps, simp add: starved_eval)+
  done

section \<open>The read-until-done loop\<close>




subsection \<open>Lines of the spec that the code accepts\<close>

lemma isTokenChar_spec:
  assumes "spec_token_char c" and "c \<notin> set ''AZaz09''"
  shows "isTokenChar c"
proof -
  have ne: "ord c \<noteq> ord (CHR ''A'')" "ord c \<noteq> ord (CHR ''Z'')" "ord c \<noteq> ord (CHR ''a'')"
    "ord c \<noteq> ord (CHR ''z'')" "ord c \<noteq> ord (CHR ''0'')" "ord c \<noteq> ord (CHR ''9'')"
    using assms(2) unfolding ord_def of_char_eq_iff by auto
  from assms(1) show ?thesis
    unfolding spec_token_char_def isTokenChar_def using ne by (auto simp: nat_less_le)
qed

lemma isToken_spec:
  "list_all spec_token_char name \<Longrightarrow> set name \<inter> set ''AZaz09'' = {} \<Longrightarrow> isToken name"
  by (induction name) (auto intro: isTokenChar_spec)

lemma spec_token_char_not_space: "\<not> spec_token_char (CHR '' '')"
  by (simp add: spec_token_char_def ord_def)

lemma HasSuffix_space: "list_all spec_token_char name \<Longrightarrow> \<not> HasSuffix name '' ''"
proof (cases name rule: rev_cases)
  case Nil
  then show ?thesis by (simp add: HasSuffix_def)
next
  case (snoc ys y)
  assume "list_all spec_token_char name"
  with snoc have "spec_token_char y" by simp
  with spec_token_char_not_space have "y \<noteq> CHR '' ''" by auto
  with snoc show ?thesis by (simp add: HasSuffix_def)
qed

lemma parseHeader_spec:
  assumes "spec_field_line f" and "set (field_name f) \<inter> set ''AZaz09'' = {}"
  shows "parseHeader f = Inr (field_name f, TrimSpace (field_value f))"
proof -
  obtain name val found where cut: "Cut f '':'' = (name, val, found)"
    by (cases "Cut f '':''") auto
  with assms have "found" "list_all spec_token_char name" "set name \<inter> set ''AZaz09'' = {}"
    by (simp_all add: spec_field_line_def field_name_def)
  with cut isToken_spec [of name] HasSuffix_space [of name] show ?thesis
    by (simp add: parseHeader_def field_name_def field_value_def)
qed


lemma Parse_loop_header_block:
  "\<forall>f \<in> set lines. Index f rn = None \<and> parseHeader f = Inr (field_name f, TrimSpace (field_value f))
   \<Longrightarrow> Parse_loop h (header_block lines @ rest) 0
       = (set_fields h lines, length (header_block lines), True, None)"
proof (induction lines arbitrary: h)
  case Nil
  have "Index (rn @ rest) rn = Some 0"
    by (simp add: rn_def)
  then show ?case
    by (simp add: header_block_def set_fields_def Parse_loop.simps [of h "rn @ rest" 0])
next
  case (Cons l ls)
  let ?tail = "header_block ls @ rest"
  have blk: "header_block (l # ls) @ rest = l @ rn @ ?tail" by (simp add: header_block_def)
  from Cons.prems have wf: "Index l rn = None"
    and nv: "parseHeader l = Inr (field_name l, TrimSpace (field_value l))" by simp_all
  have "l \<noteq> []" using nv by (auto simp: parseHeader_def Cut_def)
  then have pos: "length l \<noteq> 0" by simp
  let ?h1 = "Set h (field_name l) (TrimSpace (field_value l))"
  from Index_line [OF wf, of ?tail] have i: "Index (l @ rn @ ?tail) rn = Some (length l)" .
  from Cons.IH [of ?h1] Cons.prems
  have IH: "Parse_loop ?h1 ?tail 0 = (set_fields ?h1 ls, length (header_block ls), True, None)"
    by simp
  have "Parse_loop h (l @ rn @ ?tail) 0 = Parse_loop ?h1 (l @ rn @ ?tail) (length l + 2 + 0)"
    using i pos nv by (subst Parse_loop.simps) simp
  also have "\<dots> = advance (length l + 2) (Parse_loop ?h1 (drop (length l + 2) (l @ rn @ ?tail)) 0)"
    by (rule Parse_loop_shift)
  also have "drop (length l + 2) (l @ rn @ ?tail) = ?tail" by simp
  finally show ?case using IH by (simp add: blk advance_def set_fields_def header_block_def)
qed

text \<open>
  On a block of field lines of the spec whose names have none of the characters that
  \<open>isToken\<close> wrongly rejects, feeding the bytes in chunks gives what one call gives.
\<close>

lemma Parse_chunks_valid_block:
  assumes "\<forall>f \<in> set lines. spec_field_line f \<and> set (field_name f) \<inter> set ''AZaz09'' = {}"
    and "concat cs = header_block lines"
  shows "Parse_chunks h [] cs 0 = Parse h (header_block lines)"
    and "Parse h (header_block lines) = (set_fields h lines, length (header_block lines), True, None)"
proof -
  from assms(1) have ok: "\<forall>f \<in> set lines. Index f rn = None
      \<and> parseHeader f = Inr (field_name f, TrimSpace (field_value f))"
    using parseHeader_spec by (auto simp: spec_field_line_def)
  from Parse_loop_header_block [OF ok, of h "[]"]
  show P: "Parse h (header_block lines) = (set_fields h lines, length (header_block lines), True, None)"
    by (simp add: Parse_def)
  have "Index [] rn = None" by (simp add: rn_def)
  from Parse_chunks_eq [OF this, of h cs 0] P assms(2)
  show "Parse_chunks h [] cs 0 = Parse h (header_block lines)"
    by (simp add: advance_def)
qed



subsection \<open>What a call leaves unconsumed\<close>







subsection \<open>One call of the parser inside the loop\<close>




subsection \<open>One turn of the read loop\<close>



subsection \<open>The loop from the Headers state\<close>



subsection \<open>The loop from the Init state\<close>




subsection \<open>A line longer than the buffer\<close>






end
